theory Spec2Isabelle
  imports Main "HOL-Library.Sublist"
begin

section \<open>Python strings\<close>

text \<open>
  URLs and hrefs are Python \<open>str\<close> values. They are modelled as \<open>string\<close>, one \<open>char\<close> per
  code point, so the model covers the code points below 256. The helpers below are the
  \<open>str\<close> methods the scraper and \<open>urllib.parse\<close> call.
\<close>

datatype error = NotEnabled | ValueError | KeyError

definition code_point :: "char \<Rightarrow> nat" where
  "code_point c = of_char c"

text \<open>\<open>str.isspace\<close> on one character, for the code points below 256.\<close>

definition py_isspace :: "char \<Rightarrow> bool" where
  "py_isspace c =
     (let n = code_point c
      in (9 \<le> n \<and> n \<le> 13) \<or> (28 \<le> n \<and> n \<le> 32) \<or> n = 133 \<or> n = 160)"

definition strip :: "string \<Rightarrow> string" where
  "strip s = rev (dropWhile py_isspace (rev (dropWhile py_isspace s)))"

definition startswith :: "string \<Rightarrow> string \<Rightarrow> bool" where
  "startswith s p = prefix p s"

text \<open>\<open>s.startswith((p1, p2, ...))\<close> with a tuple of prefixes.\<close>

definition startswith_any :: "string \<Rightarrow> string list \<Rightarrow> bool" where
  "startswith_any s ps = list_ex (startswith s) ps"

definition upper_letters :: string where
  "upper_letters = ''ABCDEFGHIJKLMNOPQRSTUVWXYZ''"

definition lower_letters :: string where
  "lower_letters = ''abcdefghijklmnopqrstuvwxyz''"

definition digits :: string where
  "digits = ''0123456789''"

text \<open>Lower-casing of one character; only the ASCII letters change.\<close>

definition ascii_lower :: "char \<Rightarrow> char" where
  "ascii_lower c =
     (case map_of (zip upper_letters lower_letters) c of Some l \<Rightarrow> l | None \<Rightarrow> c)"

definition lower :: "string \<Rightarrow> string" where
  "lower s = map ascii_lower s"

text \<open>
  \<open>s.split(c)\<close> for a one-character separator: the pieces between the occurrences of \<open>c\<close>,
  always at least one piece.
\<close>

fun split_char :: "char \<Rightarrow> string \<Rightarrow> string list" where
  "split_char c [] = [[]]"
| "split_char c (x # xs) =
     (if x = c then [] # split_char c xs
      else (case split_char c xs of
              [] \<Rightarrow> [[x]]
            | p # ps \<Rightarrow> (x # p) # ps))"

text \<open>\<open>sep.join(parts)\<close> for a one-character separator.\<close>

fun join_char :: "char \<Rightarrow> string list \<Rightarrow> string" where
  "join_char c [] = []"
| "join_char c [p] = p"
| "join_char c (p # q # ps) = p @ c # join_char c (q # ps)"

text \<open>\<open>s.split(c, 1)\<close> when \<open>c\<close> occurs in \<open>s\<close>: the text before and after its first occurrence.\<close>

definition split_first :: "char \<Rightarrow> string \<Rightarrow> string \<times> string" where
  "split_first c s = (takeWhile (\<lambda>x. x \<noteq> c) s, drop 1 (dropWhile (\<lambda>x. x \<noteq> c) s))"

section \<open>Regular expressions\<close>

text \<open>
  The patterns the scraper hands to \<open>re.search\<close> are built from literal characters,
  concatenation, alternation, the optional marker \<open>?\<close> and the end anchor \<open>$\<close>.
  \<open>rmatch\<close> returns, for a pattern matched at the start of a text, every possible rest
  of the text after the match. The flag is \<open>re.I\<close>. Without \<open>re.M\<close> the anchor \<open>$\<close> matches
  at the end of the text and just before a newline that ends the text.
\<close>

datatype regex =
    Lit char
  | Cat regex regex
  | Alt regex regex
  | Opt regex
  | Eol

definition lit_eq :: "bool \<Rightarrow> char \<Rightarrow> char \<Rightarrow> bool" where
  "lit_eq ignorecase c x = (if ignorecase then ascii_lower c = ascii_lower x else c = x)"

fun rmatch :: "bool \<Rightarrow> regex \<Rightarrow> string \<Rightarrow> string list" where
  "rmatch ic (Lit c) s =
     (case s of [] \<Rightarrow> [] | x # xs \<Rightarrow> if lit_eq ic c x then [xs] else [])"
| "rmatch ic (Cat a b) s = concat (map (rmatch ic b) (rmatch ic a s))"
| "rmatch ic (Alt a b) s = rmatch ic a s @ rmatch ic b s"
| "rmatch ic (Opt a) s = rmatch ic a s @ [s]"
| "rmatch ic Eol s = (if s = [] \<or> s = [CHR 0x0A] then [s] else [])"

text \<open>\<open>bool(re.search(p, s, flags))\<close>: the pattern matches at some position of the text.\<close>

definition re_search :: "bool \<Rightarrow> regex \<Rightarrow> string \<Rightarrow> bool" where
  "re_search ic p s = list_ex (\<lambda>t. rmatch ic p t \<noteq> []) (suffixes s)"

text \<open>
  A pattern that is a plain word (every character a literal; the empty word matches the
  empty text), and the alternation \<open>r1|r2|...\<close> of a first pattern and further ones.
\<close>

fun word :: "string \<Rightarrow> regex" where
  "word [] = Opt Eol"
| "word [c] = Lit c"
| "word (c # d # cs) = Cat (Lit c) (word (d # cs))"

fun alts :: "regex \<Rightarrow> regex list \<Rightarrow> regex" where
  "alts r [] = r"
| "alts r (q # rs) = Alt r (alts q rs)"

section \<open>urllib.parse\<close>

text \<open>
  \<open>urlsplit\<close>, \<open>urlparse\<close>, \<open>urlunsplit\<close>, \<open>urlunparse\<close>, \<open>urljoin\<close> and \<open>urldefrag\<close> of the
  standard library, which \<open>URLUtils\<close> calls. A \<open>ValueError\<close> of the library is the value
  \<open>Inl ValueError\<close>. Two checks of \<open>urlsplit\<close> are outside the model: the validation of a
  host in brackets by the \<open>ipaddress\<close> module (every host between matching brackets is
  accepted here), and the NFKC check of a non-ASCII netloc, which never raises on the
  code points below 256.
\<close>

definition uses_relative :: "string list" where
  "uses_relative = ['''', ''ftp'', ''http'', ''gopher'', ''nntp'', ''imap'',
                    ''wais'', ''file'', ''https'', ''shttp'', ''mms'',
                    ''prospero'', ''rtsp'', ''rtsps'', ''rtspu'', ''sftp'',
                    ''svn'', ''svn+ssh'', ''ws'', ''wss'']"

definition uses_netloc :: "string list" where
  "uses_netloc = ['''', ''ftp'', ''http'', ''gopher'', ''nntp'', ''telnet'',
                  ''imap'', ''wais'', ''file'', ''mms'', ''https'', ''shttp'',
                  ''snews'', ''prospero'', ''rtsp'', ''rtsps'', ''rtspu'', ''rsync'',
                  ''svn'', ''svn+ssh'', ''sftp'', ''nfs'', ''git'', ''git+ssh'',
                  ''ws'', ''wss'']"

definition uses_params :: "string list" where
  "uses_params = ['''', ''ftp'', ''hdl'', ''prospero'', ''http'', ''imap'',
                  ''https'', ''shttp'', ''rtsp'', ''rtsps'', ''rtspu'', ''sip'',
                  ''sips'', ''mms'', ''sftp'', ''tel'']"

definition scheme_chars :: string where
  "scheme_chars = lower_letters @ upper_letters @ digits @ ''+-.''"

definition is_c0_control_or_space :: "char \<Rightarrow> bool" where
  "is_c0_control_or_space c = (code_point c \<le> 32)"

definition is_unsafe_url_byte :: "char \<Rightarrow> bool" where
  "is_unsafe_url_byte c = (c = CHR 0x09 \<or> c = CHR 0x0D \<or> c = CHR 0x0A)"

definition is_ascii_alpha :: "char \<Rightarrow> bool" where
  "is_ascii_alpha c = (c \<in> set lower_letters \<or> c \<in> set upper_letters)"

text \<open>\<open>_splitnetloc(url, 2)\<close>: the netloc runs up to the first of \<open>/\<close>, \<open>?\<close>, \<open>#\<close>.\<close>

definition is_netloc_delim :: "char \<Rightarrow> bool" where
  "is_netloc_delim c = (c = CHR ''/'' \<or> c = CHR ''?'' \<or> c = CHR ''#'')"

definition splitnetloc :: "string \<Rightarrow> string \<times> string" where
  "splitnetloc url =
     (takeWhile (\<lambda>c. \<not> is_netloc_delim c) (drop 2 url),
      dropWhile (\<lambda>c. \<not> is_netloc_delim c) (drop 2 url))"

definition split_scheme :: "string \<Rightarrow> string \<Rightarrow> string \<times> string" where
  "split_scheme url scheme =
     (let i = length (takeWhile (\<lambda>c. c \<noteq> CHR '':'') url)
      in if CHR '':'' \<in> set url \<and> 0 < i \<and> is_ascii_alpha (hd url)
            \<and> list_all (\<lambda>c. c \<in> set scheme_chars) (take i url)
         then (lower (take i url), drop (i + 1) url)
         else (scheme, url))"

definition split_fragment_query :: "string \<Rightarrow> string \<times> string \<times> string" where
  "split_fragment_query url =
     (let (url1, fragment) =
            (if CHR ''#'' \<in> set url then split_first (CHR ''#'') url else (url, ''''));
          (url2, query) =
            (if CHR ''?'' \<in> set url1 then split_first (CHR ''?'') url1 else (url1, ''''))
      in (url2, query, fragment))"

definition urlsplit ::
  "string \<Rightarrow> string \<Rightarrow> error + (string \<times> string \<times> string \<times> string \<times> string)" where
  "urlsplit url0 scheme0 =
     (let url1 = filter (\<lambda>c. \<not> is_unsafe_url_byte c) (dropWhile is_c0_control_or_space url0);
          scheme1 = filter (\<lambda>c. \<not> is_unsafe_url_byte c)
                      (rev (dropWhile is_c0_control_or_space
                         (rev (dropWhile is_c0_control_or_space scheme0))));
          (scheme, url2) = split_scheme url1 scheme1;
          (netloc, url3) = (if take 2 url2 = ''//'' then splitnetloc url2 else ('''', url2))
      in if (CHR ''['' \<in> set netloc \<and> CHR '']'' \<notin> set netloc)
            \<or> (CHR '']'' \<in> set netloc \<and> CHR ''['' \<notin> set netloc)
         then Inl ValueError
         else (let (url4, query, fragment) = split_fragment_query url3
               in Inr (scheme, netloc, url4, query, fragment)))"

record parse_result =
  scheme :: string
  netloc :: string
  path :: string
  params :: string
  query :: string
  fragment :: string

definition splitparams :: "string \<Rightarrow> string \<times> string" where
  "splitparams url =
     (if CHR ''/'' \<in> set url
      then (let tail = rev (takeWhile (\<lambda>c. c \<noteq> CHR ''/'') (rev url));
                head = take (length url - length tail) url
            in if CHR '';'' \<in> set tail
               then (head @ fst (split_first (CHR '';'') tail), snd (split_first (CHR '';'') tail))
               else (url, ''''))
      else split_first (CHR '';'') url)"

definition urlparse :: "string \<Rightarrow> string \<Rightarrow> error + parse_result" where
  "urlparse url0 scheme0 =
     (case urlsplit url0 scheme0 of
        Inl e \<Rightarrow> Inl e
      | Inr (sch, loc, url, q, frag) \<Rightarrow>
          (let (url1, ps) =
                 (if sch \<in> set uses_params \<and> CHR '';'' \<in> set url then splitparams url
                  else (url, ''''))
           in Inr \<lparr>scheme = sch, netloc = loc, path = url1, params = ps,
                    query = q, fragment = frag\<rparr>))"

definition urlunsplit :: "string \<Rightarrow> string \<Rightarrow> string \<Rightarrow> string \<Rightarrow> string \<Rightarrow> string" where
  "urlunsplit sch loc url0 q frag =
     (let url1 = (if loc \<noteq> [] \<or> (sch \<noteq> [] \<and> sch \<in> set uses_netloc) \<or> take 2 url0 = ''//''
                  then ''//'' @ loc @ (if url0 \<noteq> [] \<and> take 1 url0 \<noteq> ''/'' then ''/'' @ url0 else url0)
                  else url0);
          url2 = (if sch \<noteq> [] then sch @ '':'' @ url1 else url1);
          url3 = (if q \<noteq> [] then url2 @ ''?'' @ q else url2)
      in if frag \<noteq> [] then url3 @ ''#'' @ frag else url3)"

definition urlunparse :: "parse_result \<Rightarrow> string" where
  "urlunparse r =
     urlunsplit (scheme r) (netloc r)
       (if params r \<noteq> [] then path r @ '';'' @ params r else path r)
       (query r) (fragment r)"

text \<open>The loop of \<open>urljoin\<close> over the path segments: \<open>..\<close> pops, \<open>.\<close> is skipped.\<close>

fun resolve_segments :: "string list \<Rightarrow> string list \<Rightarrow> string list" where
  "resolve_segments resolved [] = resolved"
| "resolve_segments resolved (seg # segs) =
     (if seg = ''..'' then resolve_segments (butlast resolved) segs
      else if seg = ''.'' then resolve_segments resolved segs
      else resolve_segments (resolved @ [seg]) segs)"

definition join_segments :: "string \<Rightarrow> string \<Rightarrow> string list" where
  "join_segments bpath pth =
     (let parts = split_char (CHR ''/'') bpath;
          base_parts = (if last parts \<noteq> [] then butlast parts else parts)
      in if take 1 pth = ''/'' then split_char (CHR ''/'') pth
         else (let segments = base_parts @ split_char (CHR ''/'') pth
               in if 2 \<le> length segments
                  then hd segments # filter (\<lambda>p. p \<noteq> []) (butlast (tl segments)) @ [last segments]
                  else segments))"

definition urljoin :: "string \<Rightarrow> string \<Rightarrow> error + string" where
  "urljoin base url =
     (if base = [] then Inr url
      else if url = [] then Inr base
      else (case urlparse base '''' of
              Inl e \<Rightarrow> Inl e
            | Inr b \<Rightarrow>
               (case urlparse url (scheme b) of
                  Inl e \<Rightarrow> Inl e
                | Inr u \<Rightarrow>
                    if scheme u \<noteq> scheme b \<or> scheme u \<notin> set uses_relative then Inr url
                    else if scheme u \<in> set uses_netloc \<and> netloc u \<noteq> [] then Inr (urlunparse u)
                    else (let loc = (if scheme u \<in> set uses_netloc then netloc b else netloc u)
                          in if path u = [] \<and> params u = []
                             then Inr (urlunparse (u\<lparr>netloc := loc, path := path b, params := params b,
                                        query := (if query u = [] then query b else query u)\<rparr>))
                             else (let segments = join_segments (path b) (path u);
                                       resolved0 = resolve_segments [] segments;
                                       resolved = (if last segments = ''.'' \<or> last segments = ''..''
                                                   then resolved0 @ [[]] else resolved0);
                                       joined = join_char (CHR ''/'') resolved
                                   in Inr (urlunparse (u\<lparr>netloc := loc,
                                        path := (if joined = [] then ''/'' else joined)\<rparr>)))))))"

definition urldefrag :: "string \<Rightarrow> error + (string \<times> string)" where
  "urldefrag url =
     (if CHR ''#'' \<in> set url
      then (case urlparse url '''' of
              Inl e \<Rightarrow> Inl e
            | Inr r \<Rightarrow> Inr (urlunparse (r\<lparr>fragment := ''''\<rparr>), fragment r))
      else Inr (url, ''''))"

section \<open>URLUtils\<close>

text \<open>
  \<open>normalize_link\<close>: the href is \<open>None\<close> or a string. Everything the library raises inside
  the \<open>try\<close> block is caught by \<open>except Exception\<close> and becomes \<open>None\<close>.
\<close>

definition normalize_link :: "string \<Rightarrow> string option \<Rightarrow> string option" where
  "normalize_link current_url href0 =
     (case href0 of
        None \<Rightarrow> None
      | Some h \<Rightarrow>
          if h = [] then None
          else (let href = strip h
                in if startswith_any href [''mailto:'', ''tel:'', ''javascript:'', ''#'']
                   then None
                   else (case urljoin current_url href of
                           Inl e \<Rightarrow> None
                         | Inr abs_url \<Rightarrow>
                             (case urldefrag abs_url of
                                Inl e \<Rightarrow> None
                              | Inr (abs_url1, frag) \<Rightarrow> Some abs_url1))))"

definition is_same_origin :: "string \<Rightarrow> string \<Rightarrow> error + bool" where
  "is_same_origin seed candidate =
     (case urlparse seed '''' of
        Inl e \<Rightarrow> Inl e
      | Inr a \<Rightarrow>
          (case urlparse candidate '''' of
             Inl e \<Rightarrow> Inl e
           | Inr b \<Rightarrow> Inr ((scheme a, netloc a) = (scheme b, netloc b))))"

definition matches_blocklist :: "string \<Rightarrow> regex list \<Rightarrow> bool" where
  "matches_blocklist url patterns = list_ex (\<lambda>p. re_search False p url) patterns"

text \<open>
  The pattern of \<open>is_asset_url\<close>:
  \<^verbatim>\<open>\.(pdf|zip|png|jpe?g|webp|gif|svg|ico|mp4|mov|mp3|wav|woff2?|ttf|eot)$\<close>
\<close>

definition asset_extensions :: regex where
  "asset_extensions =
     Cat (Lit (CHR ''.''))
       (Cat (alts (word ''pdf'')
               [word ''zip'', word ''png'',
                Cat (word ''jp'') (Cat (Opt (Lit (CHR ''e''))) (Lit (CHR ''g''))),
                word ''webp'', word ''gif'', word ''svg'', word ''ico'', word ''mp4'',
                word ''mov'', word ''mp3'', word ''wav'',
                Cat (word ''woff'') (Opt (Lit (CHR ''2''))),
                word ''ttf'', word ''eot''])
            Eol)"

definition is_asset_url :: "string \<Rightarrow> bool" where
  "is_asset_url url = re_search True asset_extensions url"

section \<open>ScraperConfig and the command line\<close>

text \<open>
  The fields of \<open>ScraperConfig\<close> that the crawl and \<open>main\<close> read. A blocklist pattern is
  kept in parsed form.
\<close>

record scraper_config =
  max_pages :: int
  max_depth :: int
  concurrency_pages :: int
  navigation_timeout_ms :: int
  page_delay_ms :: int
  block_host_patterns :: "regex list"
  headless :: bool
  user_agent :: string
  collect_ui_inventory :: bool
  retry_failed_pages :: bool
  max_retries :: int
  respect_robots_txt :: bool

definition default_config :: scraper_config where
  "default_config =
     \<lparr>max_pages = 200, max_depth = 3, concurrency_pages = 4,
      navigation_timeout_ms = 30000, page_delay_ms = 100,
      block_host_patterns =
        [word ''googletagmanager.com'', word ''google-analytics.com'', word ''hotjar.com'',
         word ''facebook.com'', word ''doubleclick.net'', word ''googlesyndication.com''],
      headless = True,
      user_agent = ''Mozilla/5.0 (Windows NT 10.0; Win64; x64) AppleWebKit/537.36 (KHTML, like Gecko) Chrome/123.0.0.0 Safari/537.36'',
      collect_ui_inventory = True,
      retry_failed_pages = True, max_retries = 3, respect_robots_txt = False\<rparr>"

text \<open>
  The parsed command line, for the options \<open>main\<close> reads when it builds the configuration.
  An option that was not given is \<open>None\<close>; the \<open>store_true\<close> flags are booleans.
\<close>

record cli_args =
  arg_max_pages :: "int option"
  arg_max_depth :: "int option"
  arg_concurrency :: "int option"
  arg_headless :: bool
  arg_timeout :: "int option"
  arg_delay :: "int option"
  arg_user_agent :: "string option"
  arg_cross_origin :: bool
  arg_respect_robots :: bool

definition no_args :: cli_args where
  "no_args =
     \<lparr>arg_max_pages = None, arg_max_depth = None, arg_concurrency = None,
      arg_headless = False, arg_timeout = None, arg_delay = None, arg_user_agent = None,
      arg_cross_origin = False, arg_respect_robots = False\<rparr>"

text \<open>
  The overrides of \<open>main\<close>, in its order, applied to the configuration it loaded or
  created. \<open>--respect-robots\<close> is parsed and never read.
\<close>

definition override_config :: "cli_args \<Rightarrow> scraper_config \<Rightarrow> scraper_config" where
  "override_config args config0 =
     (let c1 = (case arg_max_pages args of Some n \<Rightarrow> config0\<lparr>max_pages := n\<rparr> | None \<Rightarrow> config0);
          c2 = (case arg_max_depth args of Some n \<Rightarrow> c1\<lparr>max_depth := n\<rparr> | None \<Rightarrow> c1);
          c3 = (case arg_concurrency args of Some n \<Rightarrow> c2\<lparr>concurrency_pages := n\<rparr> | None \<Rightarrow> c2);
          c4 = c3\<lparr>headless := arg_headless args\<rparr>;
          c5 = (case arg_timeout args of Some n \<Rightarrow> c4\<lparr>navigation_timeout_ms := n\<rparr> | None \<Rightarrow> c4);
          c6 = (case arg_delay args of Some n \<Rightarrow> c5\<lparr>page_delay_ms := n\<rparr> | None \<Rightarrow> c5);
          c7 = (case arg_user_agent args of
                  Some u \<Rightarrow> if u \<noteq> [] then c6\<lparr>user_agent := u\<rparr> else c6
                | None \<Rightarrow> c6)
      in if arg_cross_origin args then c7\<lparr>respect_robots_txt := False\<rparr> else c7)"

section \<open>UICollector\<close>

text \<open>
  The values the page scripts return are JSON. The dictionaries \<open>page_data\<close> and \<open>ui_data\<close>
  are records of optional entries: \<open>None\<close> is a key that is absent, so the dictionary with
  every entry \<open>None\<close> is the empty one, \<open>{}\<close>.
\<close>

datatype json =
    JNull
  | JBool bool
  | JNum int
  | JStr string
  | JArr "json list"
  | JObj "(string \<times> json) list"

record ui_data =
  ui_fonts :: "string list option"
  ui_colors :: "string list option"
  ui_links :: "json list option"
  ui_buttons :: "json list option"
  ui_canvases :: "json list option"
  ui_controls :: "json list option"
  ui_components :: "json list option"

record page_data =
  pd_ui_data :: "ui_data option"
  pd_css_variables :: "(string \<times> json) list option"
  pd_page_meta :: "json option"
  pd_url :: "string option"

definition empty_ui_data :: ui_data where
  "empty_ui_data =
     \<lparr>ui_fonts = None, ui_colors = None, ui_links = None, ui_buttons = None,
      ui_canvases = None, ui_controls = None, ui_components = None\<rparr>"

definition empty_page_data :: page_data where
  "empty_page_data =
     \<lparr>pd_ui_data = None, pd_css_variables = None, pd_page_meta = None, pd_url = None\<rparr>"

text \<open>\<open>d.get(key, [])\<close> on an optional entry.\<close>

definition get_list :: "'a list option \<Rightarrow> 'a list" where
  "get_list v = (case v of Some xs \<Rightarrow> xs | None \<Rightarrow> [])"

record page_record =
  page_url :: string
  page_meta :: json
  page_links :: "json list"

record inventory_meta =
  total_pages :: int
  total_assets :: int
  scraping_start :: string
  scraping_end :: string

record inventory =
  seed :: string
  pages :: "page_record list"
  fonts :: "string set"
  colors :: "string set"
  buttons :: "json list"
  links :: "json list"
  css_variables :: "string \<rightharpoonup> string"
  canvases :: "json list"
  interactive_controls :: "json list"
  components :: "json list"
  meta :: inventory_meta

text \<open>The inventory of \<open>UICollector.__init__\<close>.\<close>

definition new_inventory :: inventory where
  "new_inventory =
     \<lparr>seed = '''', pages = [], fonts = {}, colors = {}, buttons = [], links = [],
      css_variables = Map.empty, canvases = [], interactive_controls = [], components = [],
      meta = \<lparr>total_pages = 0, total_assets = 0, scraping_start = '''', scraping_end = ''''\<rparr>\<rparr>"

text \<open>One round of the loop over the CSS variables: only a non-empty string is stored.\<close>

definition set_css_variable :: "string \<times> json \<Rightarrow> (string \<rightharpoonup> string) \<Rightarrow> (string \<rightharpoonup> string)" where
  "set_css_variable kv m =
     (case snd kv of
        JStr v \<Rightarrow> if v \<noteq> [] then m(fst kv \<mapsto> v) else m
      | _ \<Rightarrow> m)"

text \<open>
  \<open>update_inventory\<close> mutates the inventory in place. The model returns the inventory after
  the call, and the exception, if the call raised one: \<open>page_data["url"]\<close> raises
  \<open>KeyError\<close> after the fonts and colors have been added.
\<close>

definition update_inventory :: "inventory \<Rightarrow> page_data option \<Rightarrow> inventory \<times> error option" where
  "update_inventory invt page_data0 =
     (case page_data0 of
        None \<Rightarrow> (invt, None)
      | Some page_data \<Rightarrow>
          if page_data = empty_page_data then (invt, None)
          else (let ui = (case pd_ui_data page_data of Some u \<Rightarrow> u | None \<Rightarrow> empty_ui_data);
                    invt1 = invt\<lparr>fonts := fonts invt \<union> set (get_list (ui_fonts ui)),
                               colors := colors invt \<union> set (get_list (ui_colors ui))\<rparr>
                in case pd_url page_data of
                     None \<Rightarrow> (invt1, Some KeyError)
                   | Some u \<Rightarrow>
                       (invt1\<lparr>pages := pages invt1 @
                                 [\<lparr>page_url = u,
                                   page_meta = (case pd_page_meta page_data of
                                                  Some m \<Rightarrow> m | None \<Rightarrow> JObj []),
                                   page_links = take 200 (get_list (ui_links ui))\<rparr>],
                              buttons := buttons invt1 @ take 100 (get_list (ui_buttons ui)),
                              canvases := canvases invt1 @ get_list (ui_canvases ui),
                              interactive_controls :=
                                interactive_controls invt1 @ get_list (ui_controls ui),
                              components := components invt1 @ get_list (ui_components ui),
                              css_variables :=
                                fold set_css_variable (get_list (pd_css_variables page_data))
                                  (css_variables invt1)\<rparr>,
                        None)))"

section \<open>SiteScraper\<close>

text \<open>
  The crawl runs as \<open>concurrency_pages\<close> asyncio tasks over one scraper object. A task runs
  alone until it reaches an \<open>await\<close> that suspends it, so the crawl is an interleaving of the
  pieces of \<open>_worker\<close> and \<open>_scrape_page\<close> between two suspensions. A worker is at one of
  these points:
  \<^item> \<open>Waiting\<close>: in \<open>await self.to_visit.get()\<close>;
  \<^item> \<open>Opening url depth\<close>: in \<open>_scrape_page\<close>, awaiting \<open>context.new_page()\<close> and the
    viewport, before \<open>page.goto\<close>;
  \<^item> \<open>Loading url depth\<close>: in \<open>await page.goto(...)\<close>;
  \<^item> \<open>Processing url depth\<close>: after the page counter was incremented, in the page
    processors and \<open>collect_from_page\<close>;
  \<^item> \<open>Discovering url depth\<close>: in \<open>_discover_links\<close>, awaiting the hrefs of the page;
  \<^item> \<open>Exited\<close>: the task has returned from \<open>_worker\<close>.

  The semaphore has as many permits as there are workers, so acquiring it never suspends.
  The queue is unbounded, so \<open>put\<close> never suspends. Opening and closing a page are taken
  to succeed.
\<close>

datatype worker =
    Waiting
  | Opening string int
  | Loading string int
  | Processing string int
  | Discovering string int
  | Exited

text \<open>
  The scraper object. \<open>to_visit\<close> and \<open>unfinished_tasks\<close> are the \<open>asyncio.Queue\<close>: its
  items, and its count of items that were put and not yet marked done.
\<close>

record scraper =
  start_url :: string
  config :: scraper_config
  ui_collector :: inventory
  to_visit :: "(string \<times> int) list"
  unfinished_tasks :: nat
  seen_urls :: "string set"
  failed_urls :: "string set"
  page_count :: int
  workers :: "worker list"

text \<open>\<open>Queue.put\<close> and \<open>Queue.task_done\<close>; the latter raises when called too often.\<close>

definition put :: "string \<times> int \<Rightarrow> scraper \<Rightarrow> scraper" where
  "put item s = s\<lparr>to_visit := to_visit s @ [item], unfinished_tasks := Suc (unfinished_tasks s)\<rparr>"

definition task_done :: "scraper \<Rightarrow> error + scraper" where
  "task_done s =
     (if unfinished_tasks s = 0 then Inl ValueError
      else Inr (s\<lparr>unfinished_tasks := unfinished_tasks s - 1\<rparr>))"

text \<open>\<open>Queue.join\<close> returns once every item that was put has been marked done.\<close>

definition join_returns :: "scraper \<Rightarrow> bool" where
  "join_returns s = (unfinished_tasks s = 0)"

text \<open>\<open>SiteScraper.__init__\<close>, then the start of \<open>run\<close>: the seed is put, the workers created.\<close>

definition new_scraper :: "string \<Rightarrow> scraper_config \<Rightarrow> scraper" where
  "new_scraper url cfg =
     \<lparr>start_url = url, config = cfg, ui_collector = new_inventory\<lparr>seed := url\<rparr>,
      to_visit = [], unfinished_tasks = 0, seen_urls = {}, failed_urls = {},
      page_count = 0, workers = []\<rparr>"

definition run :: "scraper \<Rightarrow> scraper" where
  "run s =
     (put (start_url s, 0) s)
       \<lparr>workers := replicate (nat (concurrency_pages (config s))) Waiting\<rparr>"

text \<open>
  The \<open>finally\<close> of \<open>_worker\<close>: the item is marked done. Then the worker is back at \<open>get\<close>,
  or, after the \<open>return\<close> at the page limit, it has left its loop.
\<close>

definition finish :: "nat \<Rightarrow> worker \<Rightarrow> scraper \<Rightarrow> error + scraper" where
  "finish i w s =
     (case task_done s of
        Inl e \<Rightarrow> Inl e
      | Inr s1 \<Rightarrow> Inr (s1\<lparr>workers := (workers s1)[i := w]\<rparr>))"

definition check_robots_txt :: "string \<Rightarrow> bool" where
  "check_robots_txt url = True"

text \<open>\<open>_scrape_page\<close> up to its first suspension.\<close>

definition scrape_page :: "nat \<Rightarrow> string \<Rightarrow> int \<Rightarrow> scraper \<Rightarrow> error + scraper" where
  "scrape_page i url depth s =
     (if url \<in> seen_urls s then finish i Waiting s
      else (let s1 = s\<lparr>seen_urls := insert url (seen_urls s)\<rparr>
            in if respect_robots_txt (config s1) \<and> \<not> check_robots_txt url
               then finish i Waiting s1
               else if matches_blocklist url (block_host_patterns (config s1))
               then finish i Waiting s1
               else Inr (s1\<lparr>workers := (workers s1)[i := Opening url depth]\<rparr>)))"

text \<open>The body of the loop of \<open>_worker\<close>, once \<open>get\<close> has returned an item.\<close>

definition worker_got :: "nat \<Rightarrow> string \<Rightarrow> int \<Rightarrow> scraper \<Rightarrow> error + scraper" where
  "worker_got i url depth s =
     (if page_count s \<ge> max_pages (config s) then finish i Exited s
      else scrape_page i url depth s)"

text \<open>
  One round of the loop of \<open>_discover_links\<close>. \<open>Inl\<close> is an exception, which leaves the
  loop.
\<close>

definition discover_link :: "string \<Rightarrow> int \<Rightarrow> string \<Rightarrow> scraper \<Rightarrow> error + scraper" where
  "discover_link current_url current_depth href s =
     (case normalize_link current_url (Some href) of
        None \<Rightarrow> Inr s
      | Some next_url \<Rightarrow>
          if next_url = [] then Inr s
          else (case (if respect_robots_txt (config s) then Inr True
                      else is_same_origin (start_url s) next_url) of
                  Inl e \<Rightarrow> Inl e
                | Inr allowed \<Rightarrow>
                    if \<not> allowed then Inr s
                    else if is_asset_url next_url then Inr s
                    else if next_url \<notin> seen_urls s \<and> next_url \<notin> failed_urls s
                            \<and> current_depth + 1 \<le> max_depth (config s)
                    then Inr (put (next_url, current_depth + 1) s)
                    else Inr s))"

text \<open>
  The loop over the hrefs. An exception is caught by \<open>_discover_links\<close> and logged; what
  was put before it stays in the queue.
\<close>

fun discover_loop :: "string \<Rightarrow> int \<Rightarrow> string list \<Rightarrow> scraper \<Rightarrow> scraper" where
  "discover_loop current_url current_depth [] s = s"
| "discover_loop current_url current_depth (href # hrefs) s =
     (case discover_link current_url current_depth href s of
        Inl e \<Rightarrow> s
      | Inr s1 \<Rightarrow> discover_loop current_url current_depth hrefs s1)"

text \<open>\<open>_discover_links\<close>, given what the page returned for its hrefs (\<open>None\<close>: it raised).\<close>

definition discover_links :: "string \<Rightarrow> int \<Rightarrow> string list option \<Rightarrow> scraper \<Rightarrow> scraper" where
  "discover_links current_url current_depth hrefs s =
     (case hrefs of
        None \<Rightarrow> s
      | Some hs \<Rightarrow> discover_loop current_url current_depth hs s)"

text \<open>
  What happens in the crawl: which worker resumes, and what the renderer gave it.
  \<^item> \<open>Take i\<close>: \<open>get\<close> returns the head of the queue to worker \<open>i\<close>;
  \<^item> \<open>Goto i\<close>: the page of worker \<open>i\<close> is open and \<open>page.goto\<close> starts;
  \<^item> \<open>GotoFailed i\<close>: \<open>page.goto\<close> raised; \<open>GotoDone i\<close>: it returned;
  \<^item> \<open>Collected i pd\<close>: the processors ran and \<open>collect_from_page\<close> returned \<open>pd\<close>;
  \<^item> \<open>Links i hrefs\<close>: the page returned its hrefs.
\<close>

datatype event =
    Take nat
  | Goto nat
  | GotoFailed nat
  | GotoDone nat
  | Collected nat "page_data option"
  | Links nat "string list option"

definition worker_at :: "scraper \<Rightarrow> nat \<Rightarrow> worker" where
  "worker_at s i = (if i < length (workers s) then workers s ! i else Exited)"

text \<open>
  One step of the crawl. \<open>Inl NotEnabled\<close>: the worker is not at that point (or the queue
  is empty, for \<open>Take\<close>), and nothing happens.
\<close>

fun fire :: "event \<Rightarrow> scraper \<Rightarrow> error + scraper" where
  "fire (Take i) s =
     (case worker_at s i of
        Waiting \<Rightarrow>
          (case to_visit s of
             [] \<Rightarrow> Inl NotEnabled
           | item # rest \<Rightarrow> worker_got i (fst item) (snd item) (s\<lparr>to_visit := rest\<rparr>))
      | _ \<Rightarrow> Inl NotEnabled)"
| "fire (Goto i) s =
     (case worker_at s i of
        Opening url depth \<Rightarrow> Inr (s\<lparr>workers := (workers s)[i := Loading url depth]\<rparr>)
      | _ \<Rightarrow> Inl NotEnabled)"
| "fire (GotoFailed i) s =
     (case worker_at s i of
        Loading url depth \<Rightarrow>
          finish i Waiting (s\<lparr>failed_urls := insert url (failed_urls s)\<rparr>)
      | _ \<Rightarrow> Inl NotEnabled)"
| "fire (GotoDone i) s =
     (case worker_at s i of
        Loading url depth \<Rightarrow>
          Inr (s\<lparr>page_count := page_count s + 1,
                  workers := (workers s)[i := Processing url depth]\<rparr>)
      | _ \<Rightarrow> Inl NotEnabled)"
| "fire (Collected i pd) s =
     (case worker_at s i of
        Processing url depth \<Rightarrow>
          if collect_ui_inventory (config s)
          then (case update_inventory (ui_collector s) pd of
                  (invt, Some e) \<Rightarrow>
                    finish i Waiting
                      (s\<lparr>ui_collector := invt, failed_urls := insert url (failed_urls s)\<rparr>)
                | (invt, None) \<Rightarrow>
                    Inr (s\<lparr>ui_collector := invt,
                            workers := (workers s)[i := Discovering url depth]\<rparr>))
          else Inr (s\<lparr>workers := (workers s)[i := Discovering url depth]\<rparr>)
      | _ \<Rightarrow> Inl NotEnabled)"
| "fire (Links i hrefs) s =
     (case worker_at s i of
        Discovering url depth \<Rightarrow> finish i Waiting (discover_links url depth hrefs s)
      | _ \<Rightarrow> Inl NotEnabled)"

text \<open>A run of the crawl: the events in their order. It stops at the first that fails.\<close>

fun exec :: "event list \<Rightarrow> scraper \<Rightarrow> error + scraper" where
  "exec [] s = Inr s"
| "exec (e # es) s =
     (case fire e s of
        Inl err \<Rightarrow> Inl err
      | Inr s1 \<Rightarrow> exec es s1)"

text \<open>
  The URLs a run takes up for loading, in order: a \<open>Take\<close> that passes the checks of
  \<open>_worker\<close> and \<open>_scrape_page\<close> leaves its worker at \<open>Opening url depth\<close>.
\<close>

definition taken_up :: "event \<Rightarrow> scraper \<Rightarrow> (string \<times> int) list" where
  "taken_up e s1 =
     (case e of
        Take i \<Rightarrow> (case worker_at s1 i of Opening url depth \<Rightarrow> [(url, depth)] | _ \<Rightarrow> [])
      | _ \<Rightarrow> [])"

fun opened :: "event list \<Rightarrow> scraper \<Rightarrow> (string \<times> int) list" where
  "opened [] s = []"
| "opened (e # es) s =
     (case fire e s of
        Inl err \<Rightarrow> []
      | Inr s1 \<Rightarrow> taken_up e s1 @ opened es s1)"

text \<open>The items the workers hold: taken from the queue and not yet marked done.\<close>

fun holds :: "worker \<Rightarrow> (string \<times> int) list" where
  "holds Waiting = []"
| "holds Exited = []"
| "holds (Opening url depth) = [(url, depth)]"
| "holds (Loading url depth) = [(url, depth)]"
| "holds (Processing url depth) = [(url, depth)]"
| "holds (Discovering url depth) = [(url, depth)]"

definition in_flight :: "scraper \<Rightarrow> (string \<times> int) list" where
  "in_flight s = concat (map holds (workers s))"

section \<open>The asset extensions, as the specification words them\<close>



section \<open>The inventory and empty page data\<close>

text \<open>
  C10. \<open>update_inventory\<close> called with page data that is missing (\<open>None\<close>) or empty (\<open>{}\<close>)
  returns without an exception and leaves the whole inventory as it was: fonts, colors,
  pages, buttons, canvases, interactive controls, components, CSS variables and meta.
\<close>

theorem update_inventory_empty_unchanged:
  "update_inventory invt None = (invt, None)
   \<and> update_inventory invt (Some empty_page_data) = (invt, None)"
  by (simp add: update_inventory_def)

section \<open>Link normalization\<close>

















section \<open>Asset URLs\<close>
































section \<open>Steps of the crawl\<close>

lemma worker_at_nth:
  "worker_at s i = w \<Longrightarrow> w \<noteq> Exited \<Longrightarrow> i < length (workers s) \<and> workers s ! i = w"
  by (auto simp: worker_at_def split: if_splits)

lemma worker_at_holds:
  "set (holds (worker_at s i)) \<subseteq> set (in_flight s)"
  by (auto simp: worker_at_def in_flight_def intro: nth_mem)

lemma in_flight_update_subset:
  "workers s1 = (workers s)[i := w] \<Longrightarrow> set (in_flight s1) \<subseteq> set (holds w) \<union> set (in_flight s)"
  using set_update_subset_insert[of "workers s" i w]
  by (auto simp: in_flight_def)

lemma length_concat_update:
  "i < length ws \<Longrightarrow>
   length (concat (map holds (ws[i := w]))) + length (holds (ws ! i))
     = length (concat (map holds ws)) + length (holds w)"
proof (induction ws arbitrary: i)
  case Nil
  then show ?case by simp
next
  case (Cons a ws)
  then show ?case by (cases i) auto
qed

lemma in_flight_update_length:
  assumes "workers s1 = (workers s)[i := w]" and "worker_at s i = v" and "v \<noteq> Exited"
  shows "length (in_flight s1) + length (holds v) = length (in_flight s) + length (holds w)"
proof -
  from worker_at_nth[OF assms(2,3)]
  have i: "i < length (workers s)" and v: "workers s ! i = v" by auto
  from length_concat_update[OF i, of w] show ?thesis
    unfolding in_flight_def assms(1) v .
qed

lemma worker_at_update:
  assumes "workers s1 = (workers s)[i := w]" and "worker_at s i = v" and "v \<noteq> Exited"
  shows "worker_at s1 i = w"
proof -
  from worker_at_nth[OF assms(2,3)] have "i < length (workers s)" by simp
  then show ?thesis by (simp add: worker_at_def assms(1))
qed

text \<open>What the loop over the hrefs changes: it appends to the queue, and nothing else.\<close>

lemma discover_link_frame:
  assumes "discover_link cur d href s = Inr s1"
  shows "s1 = s \<or> (\<exists>u. u \<notin> seen_urls s \<and> u \<notin> failed_urls s \<and> d + 1 \<le> max_depth (config s)
                     \<and> s1 = put (u, d + 1) s)"
  using assms
  by (auto simp: discover_link_def split: option.splits if_splits sum.splits)

lemma discover_loop_frame:
  "\<exists>new. discover_loop cur d hs s
            = s\<lparr>to_visit := to_visit s @ new,
                 unfinished_tasks := unfinished_tasks s + length new\<rparr>
         \<and> (\<forall>item \<in> set new. snd item = d + 1 \<and> d + 1 \<le> max_depth (config s)
               \<and> fst item \<notin> seen_urls s \<and> fst item \<notin> failed_urls s)"
proof (induction hs arbitrary: s)
  case Nil
  have "s = s\<lparr>to_visit := to_visit s @ [], unfinished_tasks := unfinished_tasks s + length ([]::(string \<times> int) list)\<rparr>"
    by simp
  then show ?case
    by (metis discover_loop.simps(1) empty_iff list.set(1))
next
  case (Cons h hs)
  show ?case
  proof (cases "discover_link cur d h s")
    case (Inl e)
    have "s = s\<lparr>to_visit := to_visit s @ [], unfinished_tasks := unfinished_tasks s + length ([]::(string \<times> int) list)\<rparr>"
      by simp
    moreover have "discover_loop cur d (h # hs) s = s" using Inl by simp
    ultimately show ?thesis
      by (metis empty_iff list.set(1))
  next
    case (Inr s1)
    from Cons.IH[of s1] obtain new where
      n1: "discover_loop cur d hs s1
            = s1\<lparr>to_visit := to_visit s1 @ new,
                  unfinished_tasks := unfinished_tasks s1 + length new\<rparr>"
      and n2: "\<forall>item \<in> set new. snd item = d + 1 \<and> d + 1 \<le> max_depth (config s1)
               \<and> fst item \<notin> seen_urls s1 \<and> fst item \<notin> failed_urls s1"
      by blast
    have loop: "discover_loop cur d (h # hs) s = discover_loop cur d hs s1"
      using Inr by simp
    from discover_link_frame[OF Inr] show ?thesis
    proof
      assume "s1 = s"
      with n1 n2 loop show ?thesis by auto
    next
      assume "\<exists>u. u \<notin> seen_urls s \<and> u \<notin> failed_urls s \<and> d + 1 \<le> max_depth (config s)
                     \<and> s1 = put (u, d + 1) s"
      then obtain u where u: "u \<notin> seen_urls s" "u \<notin> failed_urls s" "d + 1 \<le> max_depth (config s)"
        and s1: "s1 = put (u, d + 1) s" by blast
      have "discover_loop cur d (h # hs) s
            = s\<lparr>to_visit := to_visit s @ ((u, d + 1) # new),
                 unfinished_tasks := unfinished_tasks s + length ((u, d + 1) # new)\<rparr>"
        using n1 unfolding loop s1 by (simp add: put_def)
      moreover have "\<forall>item \<in> set ((u, d + 1) # new). snd item = d + 1 \<and> d + 1 \<le> max_depth (config s)
               \<and> fst item \<notin> seen_urls s \<and> fst item \<notin> failed_urls s"
        using n2 u unfolding s1 by (auto simp: put_def)
      ultimately show ?thesis by blast
    qed
  qed
qed

lemma fire_cases [consumes 1, case_names dropped opened goto goto_failed goto_done
    collect_failed collected links]:
  assumes "fire e s = Inr s1"
  obtains
    (dropped) i u d rest w S where
      "e = Take i" "worker_at s i = Waiting" "to_visit s = (u, d) # rest"
      "0 < unfinished_tasks s" "w = Waiting \<or> w = Exited"
      "S = seen_urls s \<or> S = insert u (seen_urls s)"
      "w = Exited \<or> S = insert u (seen_urls s) \<or> u \<in> seen_urls s"
      "s1 = s\<lparr>to_visit := rest, seen_urls := S,
               unfinished_tasks := unfinished_tasks s - 1,
               workers := (workers s)[i := w]\<rparr>"
  | (opened) i u d rest where
      "e = Take i" "worker_at s i = Waiting" "to_visit s = (u, d) # rest"
      "u \<notin> seen_urls s" "page_count s < max_pages (config s)"
      "s1 = s\<lparr>to_visit := rest, seen_urls := insert u (seen_urls s),
               workers := (workers s)[i := Opening u d]\<rparr>"
  | (goto) i u d where
      "e = Goto i" "worker_at s i = Opening u d"
      "s1 = s\<lparr>workers := (workers s)[i := Loading u d]\<rparr>"
  | (goto_failed) i u d where
      "e = GotoFailed i" "worker_at s i = Loading u d" "0 < unfinished_tasks s"
      "s1 = s\<lparr>failed_urls := insert u (failed_urls s),
               unfinished_tasks := unfinished_tasks s - 1,
               workers := (workers s)[i := Waiting]\<rparr>"
  | (goto_done) i u d where
      "e = GotoDone i" "worker_at s i = Loading u d"
      "s1 = s\<lparr>page_count := page_count s + 1,
               workers := (workers s)[i := Processing u d]\<rparr>"
  | (collect_failed) i pd u d iv where
      "e = Collected i pd" "worker_at s i = Processing u d" "0 < unfinished_tasks s"
      "s1 = s\<lparr>ui_collector := iv, failed_urls := insert u (failed_urls s),
               unfinished_tasks := unfinished_tasks s - 1,
               workers := (workers s)[i := Waiting]\<rparr>"
  | (collected) i pd u d iv where
      "e = Collected i pd" "worker_at s i = Processing u d"
      "s1 = s\<lparr>ui_collector := iv, workers := (workers s)[i := Discovering u d]\<rparr>"
  | (links) i hs u d new where
      "e = Links i hs" "worker_at s i = Discovering u d"
      "0 < unfinished_tasks s + length new"
      "\<forall>item \<in> set new. snd item = d + 1 \<and> d + 1 \<le> max_depth (config s)
               \<and> fst item \<notin> seen_urls s \<and> fst item \<notin> failed_urls s"
      "s1 = s\<lparr>to_visit := to_visit s @ new,
               unfinished_tasks := unfinished_tasks s + length new - 1,
               workers := (workers s)[i := Waiting]\<rparr>"
proof (cases e)
  case (Take i)
  with assms obtain u d rest where w: "worker_at s i = Waiting" and q: "to_visit s = (u, d) # rest"
    and r: "worker_got i u d (s\<lparr>to_visit := rest\<rparr>) = Inr s1"
    by (auto split: worker.splits list.splits)
  show ?thesis
  proof (cases "page_count s \<ge> max_pages (config s)")
    case True
    with r have "0 < unfinished_tasks s"
      "s1 = s\<lparr>to_visit := rest, seen_urls := seen_urls s,
               unfinished_tasks := unfinished_tasks s - 1,
               workers := (workers s)[i := Exited]\<rparr>"
      by (auto simp: worker_got_def finish_def task_done_def split: if_splits)
    with Take w q show ?thesis by (intro dropped[of i u d rest Exited "seen_urls s"]) auto
  next
    case False
    note cap = this
    show ?thesis
    proof (cases "u \<in> seen_urls s")
      case True
      with r cap have "0 < unfinished_tasks s"
        "s1 = s\<lparr>to_visit := rest, seen_urls := seen_urls s,
                 unfinished_tasks := unfinished_tasks s - 1,
                 workers := (workers s)[i := Waiting]\<rparr>"
        by (auto simp: worker_got_def scrape_page_def finish_def task_done_def split: if_splits)
      with Take w q True show ?thesis by (intro dropped[of i u d rest Waiting "seen_urls s"]) auto
    next
      case False
      show ?thesis
      proof (cases "matches_blocklist u (block_host_patterns (config s))")
        case True
        with r cap False have "0 < unfinished_tasks s"
          "s1 = s\<lparr>to_visit := rest, seen_urls := insert u (seen_urls s),
                   unfinished_tasks := unfinished_tasks s - 1,
                   workers := (workers s)[i := Waiting]\<rparr>"
          by (auto simp: worker_got_def scrape_page_def finish_def task_done_def Let_def
              check_robots_txt_def split: if_splits)
        with Take w q show ?thesis
          by (intro dropped[of i u d rest Waiting "insert u (seen_urls s)"]) auto
      next
        case nb: False
        with r cap False have
          "s1 = s\<lparr>to_visit := rest, seen_urls := insert u (seen_urls s),
                   workers := (workers s)[i := Opening u d]\<rparr>"
          by (auto simp: worker_got_def scrape_page_def Let_def check_robots_txt_def
              split: if_splits)
        with Take w q False cap show ?thesis by (intro opened[of i u d rest]) auto
      qed
    qed
  qed
next
  case (Goto i)
  with assms show ?thesis
    by (auto split: worker.splits intro: goto)
next
  case (GotoFailed i)
  with assms show ?thesis
    by (auto split: worker.splits if_splits simp: finish_def task_done_def intro: goto_failed)
next
  case (GotoDone i)
  with assms show ?thesis
    by (auto split: worker.splits intro: goto_done)
next
  case (Collected i pd)
  with assms obtain u d where w: "worker_at s i = Processing u d"
    by (auto split: worker.splits)
  show ?thesis
  proof (cases "collect_ui_inventory (config s)")
    case False
    with assms Collected w have "s1 = s\<lparr>ui_collector := ui_collector s,
        workers := (workers s)[i := Discovering u d]\<rparr>"
      by auto
    with Collected w show ?thesis by (intro collected[of i pd u d "ui_collector s"]) auto
  next
    case True
    obtain iv err where up: "update_inventory (ui_collector s) pd = (iv, err)"
      by (cases "update_inventory (ui_collector s) pd") auto
    show ?thesis
    proof (cases err)
      case None
      with assms Collected w True up have "s1 = s\<lparr>ui_collector := iv,
          workers := (workers s)[i := Discovering u d]\<rparr>"
        by auto
      with Collected w show ?thesis by (intro collected[of i pd u d iv]) auto
    next
      case (Some x)
      with assms Collected w True up have "0 < unfinished_tasks s"
        "s1 = s\<lparr>ui_collector := iv, failed_urls := insert u (failed_urls s),
               unfinished_tasks := unfinished_tasks s - 1,
               workers := (workers s)[i := Waiting]\<rparr>"
        by (auto simp: finish_def task_done_def split: if_splits)
      with Collected w show ?thesis by (intro collect_failed[of i pd u d iv]) auto
    qed
  qed
next
  case (Links i hs)
  with assms obtain u d where w: "worker_at s i = Discovering u d"
    and f: "finish i Waiting (discover_links u d hs s) = Inr s1"
    by (auto split: worker.splits)
  have "\<exists>new. discover_links u d hs s
            = s\<lparr>to_visit := to_visit s @ new,
                 unfinished_tasks := unfinished_tasks s + length new\<rparr>
         \<and> (\<forall>item \<in> set new. snd item = d + 1 \<and> d + 1 \<le> max_depth (config s)
               \<and> fst item \<notin> seen_urls s \<and> fst item \<notin> failed_urls s)"
  proof (cases hs)
    case None
    have "s = s\<lparr>to_visit := to_visit s @ [], unfinished_tasks := unfinished_tasks s + length ([]::(string \<times> int) list)\<rparr>"
      by simp
    then show ?thesis unfolding discover_links_def None
      by (metis empty_iff list.set(1) option.simps(4))
  next
    case (Some a)
    then show ?thesis using discover_loop_frame[of u d a s] by (simp add: discover_links_def)
  qed
  then obtain new where n1: "discover_links u d hs s
            = s\<lparr>to_visit := to_visit s @ new,
                 unfinished_tasks := unfinished_tasks s + length new\<rparr>"
    and n2: "\<forall>item \<in> set new. snd item = d + 1 \<and> d + 1 \<le> max_depth (config s)
               \<and> fst item \<notin> seen_urls s \<and> fst item \<notin> failed_urls s"
    by blast
  from f have "0 < unfinished_tasks s + length new"
      "s1 = s\<lparr>to_visit := to_visit s @ new,
               unfinished_tasks := unfinished_tasks s + length new - 1,
               workers := (workers s)[i := Waiting]\<rparr>"
    unfolding n1 by (auto simp: finish_def task_done_def split: if_splits)
  with Links w n2 show ?thesis by (intro links[of i hs u d new]) auto
qed


text \<open>The same, field by field.\<close>

lemma fire_fields [consumes 1, case_names dropped opened goto goto_failed goto_done
    collect_failed collected links]:
  assumes "fire e s = Inr s1"
  obtains
    (dropped) i u d rest w where
      "e = Take i" "worker_at s i = Waiting" "to_visit s = (u, d) # rest"
      "0 < unfinished_tasks s" "holds w = []" "w = Waiting \<or> w = Exited"
      "config s1 = config s" "start_url s1 = start_url s"
      "to_visit s1 = rest" "unfinished_tasks s1 = unfinished_tasks s - 1"
      "seen_urls s \<subseteq> seen_urls s1" "seen_urls s1 \<subseteq> insert u (seen_urls s)"
      "failed_urls s1 = failed_urls s" "page_count s1 = page_count s"
      "workers s1 = (workers s)[i := w]"
  | (opened) i u d rest where
      "e = Take i" "worker_at s i = Waiting" "to_visit s = (u, d) # rest"
      "u \<notin> seen_urls s" "page_count s < max_pages (config s)"
      "config s1 = config s" "start_url s1 = start_url s"
      "to_visit s1 = rest" "unfinished_tasks s1 = unfinished_tasks s"
      "seen_urls s1 = insert u (seen_urls s)"
      "failed_urls s1 = failed_urls s" "page_count s1 = page_count s"
      "workers s1 = (workers s)[i := Opening u d]"
  | (goto) i u d where
      "e = Goto i" "worker_at s i = Opening u d"
      "config s1 = config s" "start_url s1 = start_url s"
      "to_visit s1 = to_visit s" "unfinished_tasks s1 = unfinished_tasks s"
      "seen_urls s1 = seen_urls s"
      "failed_urls s1 = failed_urls s" "page_count s1 = page_count s"
      "workers s1 = (workers s)[i := Loading u d]"
  | (goto_failed) i u d where
      "e = GotoFailed i" "worker_at s i = Loading u d" "0 < unfinished_tasks s"
      "config s1 = config s" "start_url s1 = start_url s"
      "to_visit s1 = to_visit s" "unfinished_tasks s1 = unfinished_tasks s - 1"
      "seen_urls s1 = seen_urls s"
      "failed_urls s1 = insert u (failed_urls s)" "page_count s1 = page_count s"
      "workers s1 = (workers s)[i := Waiting]"
  | (goto_done) i u d where
      "e = GotoDone i" "worker_at s i = Loading u d"
      "config s1 = config s" "start_url s1 = start_url s"
      "to_visit s1 = to_visit s" "unfinished_tasks s1 = unfinished_tasks s"
      "seen_urls s1 = seen_urls s"
      "failed_urls s1 = failed_urls s" "page_count s1 = page_count s + 1"
      "workers s1 = (workers s)[i := Processing u d]"
  | (collect_failed) i pd u d where
      "e = Collected i pd" "worker_at s i = Processing u d" "0 < unfinished_tasks s"
      "config s1 = config s" "start_url s1 = start_url s"
      "to_visit s1 = to_visit s" "unfinished_tasks s1 = unfinished_tasks s - 1"
      "seen_urls s1 = seen_urls s"
      "failed_urls s1 = insert u (failed_urls s)" "page_count s1 = page_count s"
      "workers s1 = (workers s)[i := Waiting]"
  | (collected) i pd u d where
      "e = Collected i pd" "worker_at s i = Processing u d"
      "config s1 = config s" "start_url s1 = start_url s"
      "to_visit s1 = to_visit s" "unfinished_tasks s1 = unfinished_tasks s"
      "seen_urls s1 = seen_urls s"
      "failed_urls s1 = failed_urls s" "page_count s1 = page_count s"
      "workers s1 = (workers s)[i := Discovering u d]"
  | (links) i hs u d new where
      "e = Links i hs" "worker_at s i = Discovering u d"
      "0 < unfinished_tasks s + length new"
      "\<forall>item \<in> set new. snd item = d + 1 \<and> d + 1 \<le> max_depth (config s)
               \<and> fst item \<notin> seen_urls s \<and> fst item \<notin> failed_urls s"
      "config s1 = config s" "start_url s1 = start_url s"
      "to_visit s1 = to_visit s @ new"
      "unfinished_tasks s1 = unfinished_tasks s + length new - 1"
      "seen_urls s1 = seen_urls s"
      "failed_urls s1 = failed_urls s" "page_count s1 = page_count s"
      "workers s1 = (workers s)[i := Waiting]"
  using assms
proof (cases rule: fire_cases)
  case (dropped i u d rest w S)
  have "holds w = []" using dropped(5) by auto
  moreover have "seen_urls s \<subseteq> seen_urls s1" "seen_urls s1 \<subseteq> insert u (seen_urls s)"
    using dropped(6,8) by auto
  ultimately show ?thesis
    using dropped by (intro that(1)[of i u d rest w]) simp_all
next
  case (opened i u d rest)
  then show ?thesis by (intro that(2)[of i u d rest]) simp_all
next
  case (goto i u d)
  then show ?thesis by (intro that(3)[of i u d]) simp_all
next
  case (goto_failed i u d)
  then show ?thesis by (intro that(4)[of i u d]) simp_all
next
  case (goto_done i u d)
  then show ?thesis by (intro that(5)[of i u d]) simp_all
next
  case (collect_failed i pd u d iv)
  then show ?thesis by (intro that(6)[of i pd u d]) simp_all
next
  case (collected i pd u d iv)
  then show ?thesis by (intro that(7)[of i pd u d]) simp_all
next
  case (links i hs u d new)
  then show ?thesis by (intro that(8)[of i hs u d new]) simp_all
qed



section \<open>What every step keeps\<close>

lemma fire_frame:
  assumes "fire e s = Inr s1"
  shows "config s1 = config s \<and> start_url s1 = start_url s
         \<and> length (workers s1) = length (workers s)
         \<and> seen_urls s \<subseteq> seen_urls s1 \<and> failed_urls s \<subseteq> failed_urls s1"
  using assms by (cases rule: fire_fields) auto

lemma exec_frame:
  "exec evs s = Inr s1 \<Longrightarrow>
   config s1 = config s \<and> start_url s1 = start_url s
   \<and> length (workers s1) = length (workers s)
   \<and> seen_urls s \<subseteq> seen_urls s1 \<and> failed_urls s \<subseteq> failed_urls s1"
proof (induction evs arbitrary: s)
  case Nil
  then show ?case by simp
next
  case (Cons e evs)
  then obtain s2 where f: "fire e s = Inr s2" and r: "exec evs s2 = Inr s1"
    by (auto split: sum.splits)
  from fire_frame[OF f] Cons.IH[OF r] show ?case by auto
qed

text \<open>The queue counts the items it holds and the items the workers hold.\<close>

lemma fire_counts:
  assumes "fire e s = Inr s1"
    and "unfinished_tasks s = length (to_visit s) + length (in_flight s)"
  shows "unfinished_tasks s1 = length (to_visit s1) + length (in_flight s1)"
  using assms(1)
proof (cases rule: fire_fields)
  case (dropped i u d rest w)
  from in_flight_update_length[of s1 s i w Waiting] dropped assms(2)
  show ?thesis by simp
next
  case (opened i u d rest)
  from in_flight_update_length[of s1 s i "Opening u d" Waiting] opened assms(2)
  show ?thesis by simp
next
  case (goto i u d)
  from in_flight_update_length[of s1 s i "Loading u d" "Opening u d"] goto assms(2)
  show ?thesis by simp
next
  case (goto_failed i u d)
  from in_flight_update_length[of s1 s i Waiting "Loading u d"] goto_failed assms(2)
  show ?thesis by simp
next
  case (goto_done i u d)
  from in_flight_update_length[of s1 s i "Processing u d" "Loading u d"] goto_done assms(2)
  show ?thesis by simp
next
  case (collect_failed i pd u d)
  from in_flight_update_length[of s1 s i Waiting "Processing u d"] collect_failed assms(2)
  show ?thesis by simp
next
  case (collected i pd u d)
  from in_flight_update_length[of s1 s i "Discovering u d" "Processing u d"] collected assms(2)
  show ?thesis by simp
next
  case (links i hs u d new)
  from in_flight_update_length[of s1 s i Waiting "Discovering u d"] links assms(2)
  show ?thesis by simp
qed

text \<open>A failed URL was seen, and so was every URL a worker holds.\<close>

lemma fire_seen:
  assumes "fire e s = Inr s1"
    and "failed_urls s \<subseteq> seen_urls s" and "\<forall>item \<in> set (in_flight s). fst item \<in> seen_urls s"
  shows "failed_urls s1 \<subseteq> seen_urls s1 \<and> (\<forall>item \<in> set (in_flight s1). fst item \<in> seen_urls s1)"
  using assms(1)
proof (cases rule: fire_fields)
  case (dropped i u d rest w)
  from in_flight_update_subset[of s1 s i w] dropped(5,11,13,15) assms(2,3)
  show ?thesis by auto
next
  case (opened i u d rest)
  from in_flight_update_subset[of s1 s i "Opening u d"] opened(10,11,13) assms(2,3)
  show ?thesis by auto
next
  case (goto i u d)
  from in_flight_update_subset[of s1 s i "Loading u d"] worker_at_holds[of s i]
    goto(2,7,8,10) assms(2,3)
  show ?thesis by auto
next
  case (goto_failed i u d)
  from in_flight_update_subset[of s1 s i Waiting] worker_at_holds[of s i]
    goto_failed(2,8,9,11) assms(2,3)
  show ?thesis by auto
next
  case (goto_done i u d)
  from in_flight_update_subset[of s1 s i "Processing u d"] worker_at_holds[of s i]
    goto_done(2,7,8,10) assms(2,3)
  show ?thesis by auto
next
  case (collect_failed i pd u d)
  from in_flight_update_subset[of s1 s i Waiting] worker_at_holds[of s i]
    collect_failed(2,8,9,11) assms(2,3)
  show ?thesis by auto
next
  case (collected i pd u d)
  from in_flight_update_subset[of s1 s i "Discovering u d"] worker_at_holds[of s i]
    collected(2,7,8,10) assms(2,3)
  show ?thesis by auto
next
  case (links i hs u d new)
  from in_flight_update_subset[of s1 s i Waiting] links(9,10,12) assms(2,3)
  show ?thesis by auto
qed

text \<open>The depth of every item in the queue or held by a worker.\<close>

lemma fire_depth:
  assumes "fire e s = Inr s1"
    and "\<forall>item \<in> set (to_visit s) \<union> set (in_flight s).
           0 \<le> snd item \<and> snd item \<le> max 0 (max_depth (config s))"
  shows "\<forall>item \<in> set (to_visit s1) \<union> set (in_flight s1).
           0 \<le> snd item \<and> snd item \<le> max 0 (max_depth (config s1))"
  using assms(1)
proof (cases rule: fire_fields)
  case (dropped i u d rest w)
  from in_flight_update_subset[of s1 s i w] dropped(3,5,7,9,15) assms(2)
  show ?thesis by auto
next
  case (opened i u d rest)
  from in_flight_update_subset[of s1 s i "Opening u d"] opened(3,6,8,13) assms(2)
  show ?thesis by auto
next
  case (goto i u d)
  from in_flight_update_subset[of s1 s i "Loading u d"] worker_at_holds[of s i]
    goto(2,3,5,10) assms(2)
  show ?thesis by auto
next
  case (goto_failed i u d)
  from in_flight_update_subset[of s1 s i Waiting] goto_failed(4,6,11) assms(2)
  show ?thesis by auto
next
  case (goto_done i u d)
  from in_flight_update_subset[of s1 s i "Processing u d"] worker_at_holds[of s i]
    goto_done(2,3,5,10) assms(2)
  show ?thesis by auto
next
  case (collect_failed i pd u d)
  from in_flight_update_subset[of s1 s i Waiting] collect_failed(4,6,11) assms(2)
  show ?thesis by auto
next
  case (collected i pd u d)
  from in_flight_update_subset[of s1 s i "Discovering u d"] worker_at_holds[of s i]
    collected(2,3,5,10) assms(2)
  show ?thesis by auto
next
  case (links i hs u d new)
  have "(u, d) \<in> set (in_flight s)"
    using worker_at_holds[of s i] links(2) by auto
  with assms(2) have "0 \<le> snd (u, d)" by blast
  then have d: "0 \<le> d" by simp
  have new: "\<forall>item \<in> set new. 0 \<le> snd item \<and> snd item \<le> max 0 (max_depth (config s))"
    using links(4) d by auto
  from in_flight_update_subset[of s1 s i Waiting] links(5,7,12) assms(2) new
  show ?thesis by auto
qed


section \<open>Runs of the crawl\<close>

lemma run_initial:
  "to_visit (run (new_scraper url cfg)) = [(url, 0)]
   \<and> unfinished_tasks (run (new_scraper url cfg)) = 1
   \<and> in_flight (run (new_scraper url cfg)) = []
   \<and> seen_urls (run (new_scraper url cfg)) = {}
   \<and> failed_urls (run (new_scraper url cfg)) = {}
   \<and> page_count (run (new_scraper url cfg)) = 0
   \<and> config (run (new_scraper url cfg)) = cfg
   \<and> start_url (run (new_scraper url cfg)) = url"
  by (simp add: run_def new_scraper_def put_def in_flight_def)

lemma exec_Cons_Inr:
  "exec (e # evs) s = Inr s2 \<Longrightarrow> \<exists>s1. fire e s = Inr s1 \<and> exec evs s1 = Inr s2"
  by (auto split: sum.splits)

lemma exec_counts:
  "exec evs s = Inr s1 \<Longrightarrow>
   unfinished_tasks s = length (to_visit s) + length (in_flight s) \<Longrightarrow>
   unfinished_tasks s1 = length (to_visit s1) + length (in_flight s1)"
proof (induction evs arbitrary: s)
  case Nil
  then show ?case by simp
next
  case (Cons e evs)
  from exec_Cons_Inr[OF Cons.prems(1)] obtain s2
    where f: "fire e s = Inr s2" and r: "exec evs s2 = Inr s1" by blast
  from Cons.IH[OF r fire_counts[OF f Cons.prems(2)]] show ?case .
qed

lemma exec_seen:
  "exec evs s = Inr s1 \<Longrightarrow>
   failed_urls s \<subseteq> seen_urls s \<Longrightarrow> \<forall>item \<in> set (in_flight s). fst item \<in> seen_urls s \<Longrightarrow>
   failed_urls s1 \<subseteq> seen_urls s1 \<and> (\<forall>item \<in> set (in_flight s1). fst item \<in> seen_urls s1)"
proof (induction evs arbitrary: s)
  case Nil
  then show ?case by simp
next
  case (Cons e evs)
  from exec_Cons_Inr[OF Cons.prems(1)] obtain s2
    where f: "fire e s = Inr s2" and r: "exec evs s2 = Inr s1" by blast
  from fire_seen[OF f Cons.prems(2,3)] Cons.IH[OF r] show ?case by blast
qed

lemma exec_depth:
  "exec evs s = Inr s1 \<Longrightarrow>
   \<forall>item \<in> set (to_visit s) \<union> set (in_flight s).
      0 \<le> snd item \<and> snd item \<le> max 0 (max_depth (config s)) \<Longrightarrow>
   \<forall>item \<in> set (to_visit s1) \<union> set (in_flight s1).
      0 \<le> snd item \<and> snd item \<le> max 0 (max_depth (config s1))"
proof (induction evs arbitrary: s)
  case Nil
  then show ?case by simp
next
  case (Cons e evs)
  from exec_Cons_Inr[OF Cons.prems(1)] obtain s2
    where f: "fire e s = Inr s2" and r: "exec evs s2 = Inr s1" by blast
  from Cons.IH[OF r fire_depth[OF f Cons.prems(2)]] show ?case .
qed

text \<open>A step takes up at most one item: the head of the queue, with a URL not seen before.\<close>

lemma taken_up_cases:
  assumes "fire e s = Inr s1"
  shows "taken_up e s1 = []
         \<or> (\<exists>u d rest. taken_up e s1 = [(u, d)] \<and> to_visit s = (u, d) # rest
               \<and> u \<notin> seen_urls s \<and> u \<in> seen_urls s1
               \<and> page_count s < max_pages (config s))"
  using assms
proof (cases rule: fire_fields)
  case (dropped i u d rest w)
  from worker_at_update[OF dropped(15) dropped(2)] have "worker_at s1 i = w" by simp
  with dropped(1,6) show ?thesis by (auto simp: taken_up_def)
next
  case (opened i u d rest)
  from worker_at_update[OF opened(13) opened(2)] have "worker_at s1 i = Opening u d" by simp
  with opened show ?thesis by (auto simp: taken_up_def)
qed (simp_all add: taken_up_def)

lemma opened_fresh:
  "fst ` set (opened evs s) \<inter> seen_urls s = {} \<and> distinct (map fst (opened evs s))"
proof (induction evs arbitrary: s)
  case Nil
  show ?case by simp
next
  case (Cons e evs)
  show ?case
  proof (cases "fire e s")
    case (Inl err)
    then show ?thesis by simp
  next
    case (Inr s1)
    have op: "opened (e # evs) s = taken_up e s1 @ opened evs s1" using Inr by simp
    from fire_frame[OF Inr] have mono: "seen_urls s \<subseteq> seen_urls s1" by simp
    from Cons.IH[of s1] have ih1: "fst ` set (opened evs s1) \<inter> seen_urls s1 = {}"
      and ih2: "distinct (map fst (opened evs s1))" by auto
    from taken_up_cases[OF Inr] show ?thesis
    proof
      assume "taken_up e s1 = []"
      with op ih1 ih2 mono show ?thesis by auto
    next
      assume "\<exists>u d rest. taken_up e s1 = [(u, d)] \<and> to_visit s = (u, d) # rest
               \<and> u \<notin> seen_urls s \<and> u \<in> seen_urls s1
               \<and> page_count s < max_pages (config s)"
      then obtain u d where t: "taken_up e s1 = [(u, d)]" and u1: "u \<notin> seen_urls s"
        and u2: "u \<in> seen_urls s1" by blast
      from ih1 u2 have "u \<notin> fst ` set (opened evs s1)" by auto
      with op t ih1 ih2 mono u1 show ?thesis by auto
    qed
  qed
qed


lemma opened_depth:
  "\<forall>item \<in> set (to_visit s) \<union> set (in_flight s).
      0 \<le> snd item \<and> snd item \<le> max 0 (max_depth (config s)) \<Longrightarrow>
   \<forall>item \<in> set (opened evs s). 0 \<le> snd item \<and> snd item \<le> max 0 (max_depth (config s))"
proof (induction evs arbitrary: s)
  case Nil
  show ?case by simp
next
  case (Cons e evs)
  show ?case
  proof (cases "fire e s")
    case (Inl err)
    then show ?thesis by simp
  next
    case (Inr s1)
    have op: "opened (e # evs) s = taken_up e s1 @ opened evs s1" using Inr by simp
    from fire_frame[OF Inr] have cfg: "config s1 = config s" by simp
    from taken_up_cases[OF Inr] have "set (taken_up e s1) \<subseteq> set (to_visit s)" by auto
    with Cons.prems have
      "\<forall>item \<in> set (taken_up e s1). 0 \<le> snd item \<and> snd item \<le> max 0 (max_depth (config s))"
      by blast
    with Cons.IH[OF fire_depth[OF Inr Cons.prems]] show ?thesis
      unfolding op cfg by auto
  qed
qed


section \<open>The page limit\<close>

text \<open>
  C1. The page counter stays at or below \<open>max_pages\<close>, and no page load starts once the
  counter has reached \<open>max_pages\<close>. The code checks the counter when a worker takes an item
  and increments it only when the load has ended, so two workers pass the check together.
  With \<open>max_pages = 2\<close> and a seed page that links to \<open>/a\<close> and \<open>/b\<close>: after the seed the
  counter is 1, workers 1 and 2 take \<open>/a\<close> and \<open>/b\<close>, the load of \<open>/a\<close> ends and the counter
  is 2, then worker 2 starts the load of \<open>/b\<close>, and when it ends the counter is 3.
\<close>

theorem page_count_exceeds_max_pages:
  "map_sum id (\<lambda>s. (page_count s, max_pages (config s), worker_at s 2))
     (exec [Take 0, Goto 0, GotoDone 0, Collected 0 (Some empty_page_data), Links 0 (Some [''/a'', ''/b'']),
            Take 1, Take 2, Goto 1, GotoDone 1]
        (run (new_scraper ''https://ex.com/'' (default_config\<lparr>max_pages := 2\<rparr>))))
     = Inr (2, 2, Opening ''https://ex.com/b'' 1)
   \<and> map_sum id (\<lambda>s. (page_count s, max_pages (config s), worker_at s 2))
     (exec [Take 0, Goto 0, GotoDone 0, Collected 0 (Some empty_page_data), Links 0 (Some [''/a'', ''/b'']),
            Take 1, Take 2, Goto 1, GotoDone 1, Goto 2]
        (run (new_scraper ''https://ex.com/'' (default_config\<lparr>max_pages := 2\<rparr>))))
     = Inr (2, 2, Loading ''https://ex.com/b'' 1)
   \<and> map_sum id (\<lambda>s. (page_count s, max_pages (config s), worker_at s 2))
     (exec [Take 0, Goto 0, GotoDone 0, Collected 0 (Some empty_page_data), Links 0 (Some [''/a'', ''/b'']),
            Take 1, Take 2, Goto 1, GotoDone 1, Goto 2, GotoDone 2]
        (run (new_scraper ''https://ex.com/'' (default_config\<lparr>max_pages := 2\<rparr>))))
     = Inr (3, 2, Processing ''https://ex.com/b'' 1)"
  by code_simp

text \<open>Once every worker has left its loop, nothing can happen any more.\<close>

lemma all_exited_stuck:
  assumes "list_all (\<lambda>w. w = Exited) (workers s)"
  shows "fire e s = Inl NotEnabled"
proof -
  have "worker_at s i = Exited" for i
    using assms by (auto simp: worker_at_def list_all_length)
  then show ?thesis by (cases e) simp_all
qed

text \<open>
  C5. At the page limit a worker discards what it takes, and the queue still drains, so
  the session ends. The code leaves the loop of the worker with \<open>return\<close> at the page limit:
  a worker discards one item and is gone. With \<open>max_pages = 1\<close>, one worker and a seed
  page that links to \<open>/a\<close> and \<open>/b\<close>, the worker discards \<open>/a\<close> and exits; \<open>/b\<close> stays in the
  queue, the count of unfinished items stays 1, no step is possible, and \<open>join\<close> never
  returns.
\<close>

theorem page_limit_leaves_queue_undrained:
  "\<exists>s. exec [Take 0, Goto 0, GotoDone 0, Collected 0 (Some empty_page_data), Links 0 (Some [''/a'', ''/b'']),
             Take 0]
          (run (new_scraper ''https://ex.com/''
                 (default_config\<lparr>max_pages := 1, concurrency_pages := 1\<rparr>))) = Inr s
      \<and> page_count s = 1
      \<and> workers s = [Exited]
      \<and> to_visit s = [(''https://ex.com/b'', 1)]
      \<and> unfinished_tasks s = 1
      \<and> \<not> join_returns s
      \<and> (\<forall>e. fire e s = Inl NotEnabled)"
proof -
  have "map_sum id (\<lambda>s. (page_count s, workers s, to_visit s, unfinished_tasks s))
     (exec [Take 0, Goto 0, GotoDone 0, Collected 0 (Some empty_page_data), Links 0 (Some [''/a'', ''/b'']),
            Take 0]
        (run (new_scraper ''https://ex.com/''
               (default_config\<lparr>max_pages := 1, concurrency_pages := 1\<rparr>))))
     = Inr (1, [Exited], [(''https://ex.com/b'', 1)], 1)"
    by code_simp
  then obtain s where s: "exec [Take 0, Goto 0, GotoDone 0, Collected 0 (Some empty_page_data),
             Links 0 (Some [''/a'', ''/b'']), Take 0]
          (run (new_scraper ''https://ex.com/''
                 (default_config\<lparr>max_pages := 1, concurrency_pages := 1\<rparr>))) = Inr s"
    and f: "page_count s = 1" "workers s = [Exited]" "to_visit s = [(''https://ex.com/b'', 1)]"
      "unfinished_tasks s = 1"
    by (cases "exec [Take 0, Goto 0, GotoDone 0, Collected 0 (Some empty_page_data),
             Links 0 (Some [''/a'', ''/b'']), Take 0]
          (run (new_scraper ''https://ex.com/''
                 (default_config\<lparr>max_pages := 1, concurrency_pages := 1\<rparr>)))") auto
  have "\<forall>e. fire e s = Inl NotEnabled"
    using all_exited_stuck[of s] f(2) by simp
  with s f show ?thesis by (auto simp: join_returns_def)
qed

section \<open>The command line\<close>

text \<open>
  C9. \<open>--cross-origin\<close> lifts the same-origin restriction. In the code the option sets
  \<open>respect_robots_txt\<close> to false, and \<open>_discover_links\<close> skips a link of another origin
  exactly when \<open>respect_robots_txt\<close> is false. So with the option the configuration is the
  default one, and a link to another origin is still skipped: of the links
  \<open>https://other.com/x\<close> and \<open>/a\<close> on the seed page only the second is queued.
\<close>

theorem cross_origin_option_keeps_filter:
  "override_config (no_args\<lparr>arg_cross_origin := True\<rparr>) default_config
     = override_config no_args default_config
   \<and> respect_robots_txt (override_config (args\<lparr>arg_cross_origin := True\<rparr>) cfg) = False
   \<and> map_sum id to_visit
       (exec [Take 0, Goto 0, GotoDone 0, Collected 0 (Some empty_page_data),
              Links 0 (Some [''https://other.com/x'', ''/a''])]
          (run (new_scraper ''https://ex.com/''
                 (override_config (no_args\<lparr>arg_cross_origin := True\<rparr>) default_config))))
       = Inr [(''https://ex.com/a'', 1)]"
proof -
  have a: "override_config (no_args\<lparr>arg_cross_origin := True\<rparr>) default_config
      = override_config no_args default_config"
    by (simp add: override_config_def no_args_def default_config_def)
  have b: "respect_robots_txt (override_config (args\<lparr>arg_cross_origin := True\<rparr>) cfg) = False"
    by (simp add: override_config_def Let_def)
  have c: "map_sum id to_visit
       (exec [Take 0, Goto 0, GotoDone 0, Collected 0 (Some empty_page_data),
              Links 0 (Some [''https://other.com/x'', ''/a''])]
          (run (new_scraper ''https://ex.com/''
                 (override_config (no_args\<lparr>arg_cross_origin := True\<rparr>) default_config))))
       = Inr [(''https://ex.com/a'', 1)]"
    by code_simp
  from a b c show ?thesis by simp
qed


section \<open>Deduplication\<close>

text \<open>
  C2 as stated: link discovery adds the URL it enqueues to the set of seen URLs, so no URL
  enters the queue twice. In the code the seed page with the hrefs \<open>/a\<close> and \<open>/a\<close> puts
  \<open>https://ex.com/a\<close> into the queue twice and leaves it out of \<open>seen_urls\<close>; two workers
  then take one copy each, which empties the queue.
\<close>

theorem enqueue_reservation_counterexample:
  "map_sum id (\<lambda>s. (to_visit s, ''https://ex.com/a'' \<in> seen_urls s))
     (exec [Take 0, Goto 0, GotoDone 0, Collected 0 (Some empty_page_data), Links 0 (Some [''/a'', ''/a''])]
        (run (new_scraper ''https://ex.com/'' default_config)))
     = Inr ([(''https://ex.com/a'', 1), (''https://ex.com/a'', 1)], False)
   \<and> map_sum id (\<lambda>s. (to_visit s, worker_at s 1, worker_at s 2))
     (exec [Take 0, Goto 0, GotoDone 0, Collected 0 (Some empty_page_data), Links 0 (Some [''/a'', ''/a'']),
            Take 1, Take 2]
        (run (new_scraper ''https://ex.com/'' default_config)))
     = Inr ([], Opening ''https://ex.com/a'' 1, Waiting)"
  by code_simp

text \<open>
  C2, amended. One round of link discovery either leaves the scraper as it is or appends
  one item to the queue; it appends only a URL that is in neither \<open>seen_urls\<close> nor
  \<open>failed_urls\<close>, at depth \<open>current_depth + 1\<close>, and only if that depth is at most
  \<open>max_depth\<close>; it never changes \<open>seen_urls\<close>. A URL enters \<open>seen_urls\<close> when a worker takes
  it from the queue, and a worker that takes a URL already in \<open>seen_urls\<close> drops it. So a
  URL may be in the queue and be taken several times, and in every run each URL is taken
  up for loading at most once.
\<close>

theorem enqueue_and_single_load:
  "(discover_link current_url current_depth href s = Inr s1 \<longrightarrow>
      seen_urls s1 = seen_urls s
      \<and> (s1 = s
          \<or> (\<exists>u. u \<notin> seen_urls s \<and> u \<notin> failed_urls s
                 \<and> current_depth + 1 \<le> max_depth (config s)
                 \<and> s1 = put (u, current_depth + 1) s)))
   \<and> (fire (Take i) s = Inr s2 \<and> to_visit s = (url, depth) # rest \<and> url \<in> seen_urls s \<longrightarrow>
        taken_up (Take i) s2 = [] \<and> seen_urls s2 = seen_urls s)
   \<and> (fire (Take i) s = Inr s2 \<and> taken_up (Take i) s2 = [(url, depth)] \<longrightarrow>
        url \<notin> seen_urls s \<and> url \<in> seen_urls s2)
   \<and> distinct (map fst (opened evs (run (new_scraper start cfg))))"
proof -
  have a: "discover_link current_url current_depth href s = Inr s1 \<Longrightarrow>
      seen_urls s1 = seen_urls s
      \<and> (s1 = s
          \<or> (\<exists>u. u \<notin> seen_urls s \<and> u \<notin> failed_urls s
                 \<and> current_depth + 1 \<le> max_depth (config s)
                 \<and> s1 = put (u, current_depth + 1) s))"
    using discover_link_frame[of current_url current_depth href s s1]
    by (auto simp: put_def)
  have b: "taken_up (Take i) s2 = [] \<and> seen_urls s2 = seen_urls s"
    if f: "fire (Take i) s = Inr s2" and q: "to_visit s = (url, depth) # rest"
      and u: "url \<in> seen_urls s"
  proof -
    from taken_up_cases[OF f] q u have "taken_up (Take i) s2 = []" by auto
    moreover from f have "seen_urls s2 = seen_urls s"
    proof (cases rule: fire_fields)
      case (dropped i' u' d' rest' w)
      with q u show ?thesis by auto
    next
      case (opened i' u' d' rest')
      with q u show ?thesis by auto
    qed simp_all
    ultimately show ?thesis by simp
  qed
  have c: "url \<notin> seen_urls s \<and> url \<in> seen_urls s2"
    if f: "fire (Take i) s = Inr s2" and t: "taken_up (Take i) s2 = [(url, depth)]"
    using taken_up_cases[OF f] t by auto
  from a b c opened_fresh[of evs "run (new_scraper start cfg)"] show ?thesis
    by blast
qed

theorem enqueue_and_single_load_witness:
  "seen_urls (put (''https://ex.com/a'', 1) (run (new_scraper ''https://ex.com/'' default_config)))
     = seen_urls (run (new_scraper ''https://ex.com/'' default_config))
   \<and> distinct (map fst (opened [Take 0, Goto 0, GotoDone 0, Collected 0 (Some empty_page_data),
         Links 0 (Some [''/a'', ''/a'']), Take 1, Take 2]
         (run (new_scraper ''https://ex.com/'' default_config))))
   \<and> map fst (opened [Take 0, Goto 0, GotoDone 0, Collected 0 (Some empty_page_data),
         Links 0 (Some [''/a'', ''/a'']), Take 1, Take 2]
         (run (new_scraper ''https://ex.com/'' default_config)))
       = [''https://ex.com/'', ''https://ex.com/a'']"
proof -
  let ?s = "run (new_scraper ''https://ex.com/'' default_config)"
  have n: "normalize_link ''https://ex.com/'' (Some ''/a'') = Some ''https://ex.com/a''"
    by code_simp
  have o: "is_same_origin ''https://ex.com/'' ''https://ex.com/a'' = Inr True"
    by code_simp
  have k: "\<not> is_asset_url ''https://ex.com/a''"
    by code_simp
  have d: "(1::int) \<le> max_depth default_config" "\<not> respect_robots_txt default_config"
    by (simp_all add: default_config_def)
  have "discover_link ''https://ex.com/'' 0 ''/a'' ?s = Inr (put (''https://ex.com/a'', 0 + 1) ?s)"
    using n o k d run_initial[of "''https://ex.com/''" default_config]
    by (simp add: discover_link_def)
  with enqueue_and_single_load[of "''https://ex.com/''" 0 "''/a''" ?s
      "put (''https://ex.com/a'', 0 + 1) ?s" 0 ?s "''https://ex.com/''" 0 "[]"
      "[Take 0, Goto 0, GotoDone 0, Collected 0 (Some empty_page_data),
         Links 0 (Some [''/a'', ''/a'']), Take 1, Take 2]" "''https://ex.com/''" default_config]
  have "seen_urls (put (''https://ex.com/a'', 1) ?s) = seen_urls ?s"
    and "distinct (map fst (opened [Take 0, Goto 0, GotoDone 0, Collected 0 (Some empty_page_data),
         Links 0 (Some [''/a'', ''/a'']), Take 1, Take 2] ?s))"
    by simp_all
  moreover have "map fst (opened [Take 0, Goto 0, GotoDone 0, Collected 0 (Some empty_page_data),
         Links 0 (Some [''/a'', ''/a'']), Take 1, Take 2] ?s)
       = [''https://ex.com/'', ''https://ex.com/a'']"
    by code_simp
  ultimately show ?thesis by simp
qed

section \<open>Failed navigation\<close>

text \<open>
  C3 as stated: a failed navigation is retried while retries remain, and the URL enters
  \<open>failed_urls\<close> only when they are exhausted. In the code, with the default
  \<open>max_retries = 3\<close> and \<open>retry_failed_pages\<close> on, the first failure of the seed puts it into
  \<open>failed_urls\<close>; nothing is put back into the queue, and the session ends.
\<close>

theorem retry_counterexample:
  "map_sum id
     (\<lambda>s. (max_retries (config s), retry_failed_pages (config s),
            ''https://ex.com/'' \<in> failed_urls s, to_visit s, join_returns s))
     (exec [Take 0, Goto 0, GotoFailed 0]
        (run (new_scraper ''https://ex.com/'' default_config)))
     = Inr (3, True, True, [], True)"
  by code_simp

text \<open>
  C3, amended. When the navigation to a URL fails, the URL is put into \<open>failed_urls\<close> at
  once, whatever \<open>max_retries\<close> and \<open>retry_failed_pages\<close> are; the queue is left as it is,
  the item is marked done and the worker goes back to waiting, so the crawl goes on. The
  URL is never taken up again: it stays in \<open>failed_urls\<close> (and in \<open>seen_urls\<close>) for the rest
  of the session.
\<close>

theorem navigation_failure_is_final:
  assumes "exec evs (run (new_scraper start cfg)) = Inr s"
    and "worker_at s i = Loading url depth"
  shows "\<exists>s1. fire (GotoFailed i) s = Inr s1
           \<and> failed_urls s1 = insert url (failed_urls s)
           \<and> to_visit s1 = to_visit s
           \<and> seen_urls s1 = seen_urls s
           \<and> page_count s1 = page_count s
           \<and> worker_at s1 i = Waiting
           \<and> url \<notin> fst ` set (opened evs2 s1)
           \<and> (\<forall>s2. exec evs2 s1 = Inr s2 \<longrightarrow> url \<in> failed_urls s2 \<and> url \<in> seen_urls s2)"
proof -
  let ?s0 = "run (new_scraper start cfg)"
  have held: "(url, depth) \<in> set (in_flight s)"
    using worker_at_holds[of s i] assms(2) by simp
  have "unfinished_tasks s = length (to_visit s) + length (in_flight s)"
    using exec_counts[OF assms(1)] run_initial[of start cfg] by simp
  with held have pos: "0 < unfinished_tasks s"
    by (cases "in_flight s") auto
  have seen: "url \<in> seen_urls s"
    using exec_seen[OF assms(1)] run_initial[of start cfg] held by fastforce
  from pos assms(2) obtain s1 where f: "fire (GotoFailed i) s = Inr s1"
    by (auto simp: finish_def task_done_def)
  from f have fields: "failed_urls s1 = insert url (failed_urls s)" "to_visit s1 = to_visit s"
    "seen_urls s1 = seen_urls s" "page_count s1 = page_count s"
    "workers s1 = (workers s)[i := Waiting]"
    using assms(2) by (cases rule: fire_fields; simp)+
  from worker_at_update[OF fields(5) assms(2)] have w: "worker_at s1 i = Waiting" by simp
  from opened_fresh[of evs2 s1] seen fields(3)
  have fresh: "url \<notin> fst ` set (opened evs2 s1)" by auto
  have later: "\<forall>s2. exec evs2 s1 = Inr s2 \<longrightarrow> url \<in> failed_urls s2 \<and> url \<in> seen_urls s2"
    using exec_frame[of evs2 s1] fields(1,3) seen by auto
  from f fields w fresh later show ?thesis by blast
qed

theorem navigation_failure_is_final_witness:
  "\<exists>s s1. exec [Take 0, Goto 0] (run (new_scraper ''https://ex.com/'' default_config)) = Inr s
      \<and> fire (GotoFailed 0) s = Inr s1
      \<and> failed_urls s1 = insert ''https://ex.com/'' (failed_urls s)
      \<and> to_visit s1 = to_visit s
      \<and> worker_at s1 0 = Waiting"
proof -
  have "map_sum id (\<lambda>s. worker_at s 0)
      (exec [Take 0, Goto 0] (run (new_scraper ''https://ex.com/'' default_config)))
      = Inr (Loading ''https://ex.com/'' 0)"
    by code_simp
  then obtain s where s: "exec [Take 0, Goto 0]
      (run (new_scraper ''https://ex.com/'' default_config)) = Inr s"
    and w: "worker_at s 0 = Loading ''https://ex.com/'' 0"
    by (cases "exec [Take 0, Goto 0] (run (new_scraper ''https://ex.com/'' default_config))")
      auto
  from navigation_failure_is_final[OF s w, of "[]"] s show ?thesis by blast
qed

section \<open>Seen and failed URLs\<close>




section \<open>Depth\<close>

text \<open>
  C6 as stated: every URL a worker processes has a depth of at most \<open>max_depth\<close>. The seed
  is put into the queue at depth 0 without a look at \<open>max_depth\<close>: with \<open>max_depth = -1\<close> the
  seed is taken up at depth 0.
\<close>

theorem depth_bound_counterexample:
  "map_sum id (\<lambda>s. (worker_at s 0, max_depth (config s)))
     (exec [Take 0]
        (run (new_scraper ''https://ex.com/'' (default_config\<lparr>max_depth := - 1\<rparr>))))
     = Inr (Opening ''https://ex.com/'' 0, - 1)"
  by code_simp

text \<open>
  C6, amended. The seed is put into the queue at depth 0, whatever \<open>max_depth\<close> is, and
  link discovery puts a child at depth \<open>current_depth + 1\<close> only when that is at most
  \<open>max_depth\<close>. So every item that is ever in the queue, held by a worker or taken up for
  loading has a depth between 0 and the larger of 0 and \<open>max_depth\<close>; with
  \<open>max_depth\<close> at least 0 that is a depth of at most \<open>max_depth\<close>.
\<close>

theorem depth_bounded:
  assumes "exec evs (run (new_scraper start cfg)) = Inr s"
  shows "(\<forall>item \<in> set (opened evs (run (new_scraper start cfg)))
                    \<union> set (to_visit s) \<union> set (in_flight s).
            0 \<le> snd item \<and> snd item \<le> max 0 (max_depth cfg))
         \<and> to_visit (run (new_scraper start cfg)) = [(start, 0)]
         \<and> (discover_link current_url current_depth href s = Inr s1 \<longrightarrow>
              s1 = s \<or> (\<exists>u. current_depth + 1 \<le> max_depth cfg
                            \<and> s1 = put (u, current_depth + 1) s))"
proof -
  let ?s0 = "run (new_scraper start cfg)"
  have init: "\<forall>item \<in> set (to_visit ?s0) \<union> set (in_flight ?s0).
      0 \<le> snd item \<and> snd item \<le> max 0 (max_depth (config ?s0))"
    using run_initial[of start cfg] by simp
  have cfg: "config s = cfg" "config ?s0 = cfg"
    using exec_frame[OF assms] run_initial[of start cfg] by simp_all
  from exec_depth[OF assms init] opened_depth[OF init, of evs]
  have a: "\<forall>item \<in> set (opened evs ?s0) \<union> set (to_visit s) \<union> set (in_flight s).
            0 \<le> snd item \<and> snd item \<le> max 0 (max_depth cfg)"
    unfolding cfg by blast
  have b: "to_visit ?s0 = [(start, 0)]"
    using run_initial[of start cfg] by simp
  have c: "discover_link current_url current_depth href s = Inr s1 \<Longrightarrow>
              s1 = s \<or> (\<exists>u. current_depth + 1 \<le> max_depth cfg
                            \<and> s1 = put (u, current_depth + 1) s)"
    using discover_link_frame[of current_url current_depth href s s1] cfg(1) by auto
  from a b c show ?thesis by blast
qed

theorem depth_bounded_witness:
  "\<exists>s. exec [Take 0, Goto 0, GotoDone 0, Collected 0 (Some empty_page_data), Links 0 (Some [''/a'', ''/b'']),
             Take 1]
          (run (new_scraper ''https://ex.com/'' (default_config\<lparr>max_depth := 1\<rparr>))) = Inr s
      \<and> to_visit s = [(''https://ex.com/b'', 1)]
      \<and> in_flight s = [(''https://ex.com/a'', 1)]
      \<and> (\<forall>item \<in> set (to_visit s) \<union> set (in_flight s). 0 \<le> snd item \<and> snd item \<le> 1)"
proof -
  have "map_sum id (\<lambda>s. (to_visit s, in_flight s))
      (exec [Take 0, Goto 0, GotoDone 0, Collected 0 (Some empty_page_data), Links 0 (Some [''/a'', ''/b'']),
             Take 1]
          (run (new_scraper ''https://ex.com/'' (default_config\<lparr>max_depth := 1\<rparr>))))
      = Inr ([(''https://ex.com/b'', 1)], [(''https://ex.com/a'', 1)])"
    by code_simp
  then obtain s where s: "exec [Take 0, Goto 0, GotoDone 0, Collected 0 (Some empty_page_data),
             Links 0 (Some [''/a'', ''/b'']), Take 1]
          (run (new_scraper ''https://ex.com/'' (default_config\<lparr>max_depth := 1\<rparr>))) = Inr s"
    and q: "to_visit s = [(''https://ex.com/b'', 1)]" "in_flight s = [(''https://ex.com/a'', 1)]"
    by (cases "exec [Take 0, Goto 0, GotoDone 0, Collected 0 (Some empty_page_data),
             Links 0 (Some [''/a'', ''/b'']), Take 1]
          (run (new_scraper ''https://ex.com/'' (default_config\<lparr>max_depth := 1\<rparr>)))") auto
  have m: "max 0 (max_depth (default_config\<lparr>max_depth := 1\<rparr>)) = 1" by simp
  from depth_bounded[OF s] q s show ?thesis
    unfolding m by auto
qed


end
